theory Spec2Isabelle
  imports Main "HOL-Library.Word"
begin

section \<open>duffentry.c: entries, checksums and the comparison chain\<close>

text \<open>
  The C file works on heap-allocated \<^verbatim>\<open>struct Entry\<close> objects through pointers, reads
  files through stdio streams and consults two global flags.  The embedding keeps all of
  that explicit: a store of entries and of C strings indexed by addresses, a file system
  mapping path names to files, the two flags, and a trace of the stdio calls and warnings
  issued so far.  Every function takes the state and returns its \<^verbatim>\<open>int\<close> result
  together with the new state; the result is \<open>None\<close> exactly when the C code would
  dereference a pointer that is not allocated (undefined behaviour in C).  The file
  system does not change while one function runs; between calls it may change freely.
  \<^verbatim>\<open>free_entry\<close> and \<^verbatim>\<open>free_entry_list\<close> are left out: nothing below is about
  deallocation.
\<close>

subsection \<open>Data\<close>

type_synonym byte = "8 word"
type_synonym addr = nat

text \<open>
  Modelled from the spec: the status enumeration of \<^verbatim>\<open>duff.h\<close> (not part of the
  sources at hand), with the three values the C file uses.
\<close>

datatype Status = UNTOUCHED | CHECKSUMMED | INVALID

text \<open>
  Modelled from the spec: \<^verbatim>\<open>SHA1_HASH_SIZE\<close> of \<^verbatim>\<open>sha1.h\<close>, the 20 bytes of a
  SHA-1 digest.
\<close>

definition SHA1_HASH_SIZE :: nat where
  "SHA1_HASH_SIZE = 20"

text \<open>
  \<^verbatim>\<open>struct Entry\<close> is declared in \<^verbatim>\<open>duff.h\<close> as well; the record has the five
  fields the C file reads and writes.  The fields \<^verbatim>\<open>next\<close> and \<^verbatim>\<open>size\<close> are
  renamed (\<open>next\<close> is a keyword, \<open>size\<close> a HOL constant).  \<^verbatim>\<open>path\<close> is a pointer
  into the string store, \<^verbatim>\<open>next\<close> a nullable pointer, \<^verbatim>\<open>size\<close> an \<^verbatim>\<open>off_t\<close> that
  is only ever compared, \<^verbatim>\<open>checksum\<close> the array of \<^verbatim>\<open>SHA1_HASH_SIZE\<close> bytes.
\<close>

record Entry =
  e_next :: "addr option"
  path :: addr
  e_size :: int
  status :: Status
  checksum :: "byte list"

text \<open>
  A file on disk: the bytes that can be read, and whether the read following them fails
  with an error (\<open>fails\<close>) instead of reporting a clean end of file.
\<close>

record disk_file =
  bytes :: "byte list"
  fails :: bool

text \<open>
  An open stdio stream (\<^verbatim>\<open>FILE\<close>): the bytes not yet read, whether the read after the
  last of them fails, and the stream's error indicator (what \<^verbatim>\<open>ferror\<close> tests).
\<close>

record FILE =
  pending :: "byte list"
  bad :: bool
  err :: bool

datatype event = Fopen string | Fclose string | Warning string

record state =
  entries :: "addr \<rightharpoonup> Entry"
  strings :: "addr \<rightharpoonup> string"
  brk :: addr
  files :: "string \<rightharpoonup> disk_file"
  quiet_flag :: int
  thorough_flag :: int
  trace :: "event list"

text \<open>
  The SHA-1 routines of \<^verbatim>\<open>sha1.c\<close> are not part of the sources at hand; they are a
  parameter of every function that uses them, so every result below holds for any
  digest function.  \<open>SHA1Final\<close> returns the \<^verbatim>\<open>SHA1_HASH_SIZE\<close> digest bytes that the C
  routine writes into its second argument.
\<close>

record 'c sha1 =
  SHA1Init :: 'c
  SHA1Update :: "'c \<Rightarrow> byte list \<Rightarrow> 'c"
  SHA1Final :: "'c \<Rightarrow> byte list"

subsection \<open>The C library\<close>

text \<open>\<^verbatim>\<open>malloc\<close> hands out the next unused address; it is modelled as never failing.\<close>

definition malloc :: "state \<Rightarrow> addr \<times> state" where
  "malloc s = (brk s, s\<lparr>brk := Suc (brk s)\<rparr>)"

definition strdup :: "string \<Rightarrow> state \<Rightarrow> addr \<times> state" where
  "strdup str s =
     (case malloc s of (p, s1) \<Rightarrow> (p, s1\<lparr>strings := (strings s1)(p \<mapsto> str)\<rparr>))"

text \<open>A freshly opened stream on a file: everything pending, error indicator clear.\<close>

definition open_stream :: "disk_file \<Rightarrow> FILE" where
  "open_stream f = \<lparr>pending = bytes f, bad = fails f, err = False\<rparr>"

text \<open>
  \<^verbatim>\<open>fopen(p, "rb")\<close>: a stream when the file system has a file under that name,
  \<^verbatim>\<open>NULL\<close> otherwise.  Every attempt is recorded in the trace.
\<close>

definition fopen :: "string \<Rightarrow> state \<Rightarrow> FILE option \<times> state" where
  "fopen p s = (map_option open_stream (files s p), s\<lparr>trace := trace s @ [Fopen p]\<rparr>)"

definition fclose :: "string \<Rightarrow> state \<Rightarrow> state" where
  "fclose p s = s\<lparr>trace := trace s @ [Fclose p]\<rparr>"

text \<open>
  Modelled from the spec: \<^verbatim>\<open>warning\<close> (defined outside \<^verbatim>\<open>duffentry.c\<close>) reports an
  I/O failure on the reporting channel; here it is an event of the trace.
\<close>

definition warning :: "string \<Rightarrow> state \<Rightarrow> state" where
  "warning p s = s\<lparr>trace := trace s @ [Warning p]\<rparr>"

text \<open>
  \<^verbatim>\<open>fread(buffer, 1, n, file)\<close>: \<open>n\<close> bytes when that many are pending; otherwise the
  pending bytes, and the error indicator is set when the stream is bad.
\<close>

definition fread :: "nat \<Rightarrow> FILE \<Rightarrow> byte list \<times> FILE" where
  "fread n f =
     (if n \<le> length (pending f)
      then (take n (pending f), f\<lparr>pending := drop n (pending f)\<rparr>)
      else (pending f, f\<lparr>pending := [], err := (err f \<or> bad f)\<rparr>))"

definition EOF :: int where
  "EOF = - 1"

text \<open>
  \<^verbatim>\<open>fgetc\<close>: the next byte as a non-negative \<^verbatim>\<open>int\<close>; \<^verbatim>\<open>EOF\<close> at the end of the
  pending bytes, both at a clean end of file and on a read error.
\<close>

definition fgetc :: "FILE \<Rightarrow> int \<times> FILE" where
  "fgetc f =
     (case pending f of
        [] \<Rightarrow> (EOF, f\<lparr>err := (err f \<or> bad f)\<rparr>)
      | b # bs \<Rightarrow> (uint b, f\<lparr>pending := bs\<rparr>))"

subsection \<open>Entries\<close>

definition make_entry :: "string \<Rightarrow> int \<Rightarrow> state \<Rightarrow> addr \<times> state" where
  "make_entry pathname sz s =
     (case malloc s of (entry, s1) \<Rightarrow>
      case strdup pathname s1 of (p, s2) \<Rightarrow>
        (entry, s2\<lparr>entries := (entries s2)(entry \<mapsto>
           \<lparr>e_next = None, path = p, e_size = sz, status = UNTOUCHED,
            checksum = replicate SHA1_HASH_SIZE 0\<rparr>)\<rparr>))"

definition copy_entry :: "addr \<Rightarrow> state \<Rightarrow> (addr \<times> state) option" where
  "copy_entry entry s =
     (case malloc s of (copy, s1) \<Rightarrow>
       (case entries s1 entry of None \<Rightarrow> None | Some e \<Rightarrow>
         (case strings s1 (path e) of None \<Rightarrow> None | Some str \<Rightarrow>
           (case strdup str s1 of (p, s2) \<Rightarrow>
              Some (copy, s2\<lparr>entries := (entries s2)(copy \<mapsto>
                \<lparr>e_next = None, path = p, e_size = e_size e, status = status e,
                 checksum = checksum e\<rparr>)\<rparr>)))))"

subsection \<open>Checksums\<close>

definition BUFFER_SIZE :: nat where
  "BUFFER_SIZE = 8192"

text \<open>
  The \<^verbatim>\<open>for (;;)\<close> loop of \<^verbatim>\<open>get_entry_checksum\<close>: \<open>None\<close> when \<^verbatim>\<open>ferror\<close> holds
  after a read, the final context when a read returns no bytes.
\<close>

function read_loop :: "'c sha1 \<Rightarrow> 'c \<Rightarrow> FILE \<Rightarrow> 'c option" where
  "read_loop H context f =
     (case fread BUFFER_SIZE f of (buffer, f') \<Rightarrow>
        if err f' then None
        else if length buffer = 0 then Some context
        else read_loop H (SHA1Update H context buffer) f')"
  by pat_completeness auto
termination
  by (relation "measure (\<lambda>(H, context, f). length (pending f))")
     (auto simp: fread_def BUFFER_SIZE_def split: if_splits)

declare read_loop.simps [simp del]

definition get_entry_checksum :: "'c sha1 \<Rightarrow> addr \<Rightarrow> state \<Rightarrow> (int \<times> state) option" where
  "get_entry_checksum H entry s =
     (case entries s entry of None \<Rightarrow> None | Some e \<Rightarrow>
        if status e = INVALID then Some (- 1, s)
        else if status e \<noteq> UNTOUCHED then Some (0, s)
        else
          (case strings s (path e) of None \<Rightarrow> None | Some p \<Rightarrow>
             (case fopen p s of
                (None, s1) \<Rightarrow>
                  (let s2 = (if quiet_flag s1 = 0 then warning p s1 else s1)
                   in Some (- 1, s2\<lparr>entries := (entries s2)(entry \<mapsto> e\<lparr>status := INVALID\<rparr>)\<rparr>))
              | (Some f, s1) \<Rightarrow>
                  (case read_loop H (SHA1Init H) f of
                     None \<Rightarrow>
                       (let s2 = fclose p s1;
                            s3 = (if quiet_flag s2 = 0 then warning p s2 else s2)
                        in Some (- 1, s3\<lparr>entries := (entries s3)(entry \<mapsto> e\<lparr>status := INVALID\<rparr>)\<rparr>))
                   | Some context \<Rightarrow>
                       (let s2 = fclose p s1
                        in Some (0, s2\<lparr>entries := (entries s2)(entry \<mapsto>
                             e\<lparr>checksum := SHA1Final H context, status := CHECKSUMMED\<rparr>)\<rparr>))))))"

subsection \<open>Comparison\<close>

text \<open>The \<^verbatim>\<open>for\<close> loop of \<^verbatim>\<open>compare_entry_checksums\<close>, from index \<open>i\<close> on.\<close>

function checksum_loop :: "nat \<Rightarrow> byte list \<Rightarrow> byte list \<Rightarrow> int" where
  "checksum_loop i a b =
     (if i < SHA1_HASH_SIZE
      then (if a ! i \<noteq> b ! i then - 1 else checksum_loop (i + 1) a b)
      else 0)"
  by pat_completeness auto
termination
  by (relation "measure (\<lambda>(i, a, b). SHA1_HASH_SIZE - i)") auto

declare checksum_loop.simps [simp del]

definition compare_entry_checksums ::
  "'c sha1 \<Rightarrow> addr \<Rightarrow> addr \<Rightarrow> state \<Rightarrow> (int \<times> state) option" where
  "compare_entry_checksums H first second s =
     (case get_entry_checksum H first s of None \<Rightarrow> None | Some (r1, s1) \<Rightarrow>
        if r1 \<noteq> 0 then Some (- 1, s1)
        else
          (case get_entry_checksum H second s1 of None \<Rightarrow> None | Some (r2, s2) \<Rightarrow>
             if r2 \<noteq> 0 then Some (- 1, s2)
             else
               (case entries s2 first of None \<Rightarrow> None | Some a \<Rightarrow>
                 (case entries s2 second of None \<Rightarrow> None | Some b \<Rightarrow>
                    Some (checksum_loop 0 (checksum a) (checksum b), s2)))))"

text \<open>The \<^verbatim>\<open>do ... while (fc != EOF)\<close> loop of \<^verbatim>\<open>compare_entry_contents\<close>.\<close>

function contents_loop :: "FILE \<Rightarrow> FILE \<Rightarrow> int" where
  "contents_loop first_stream second_stream =
     (case fgetc first_stream of (fc, first_stream') \<Rightarrow>
      case fgetc second_stream of (sc, second_stream') \<Rightarrow>
        if fc \<noteq> sc then - 1
        else if fc \<noteq> EOF then contents_loop first_stream' second_stream'
        else 0)"
  by pat_completeness auto
termination
  by (relation "measure (\<lambda>(f, g). length (pending f))")
     (auto simp: fgetc_def EOF_def split: list.splits)

declare contents_loop.simps [simp del]

definition compare_entry_contents :: "addr \<Rightarrow> addr \<Rightarrow> state \<Rightarrow> (int \<times> state) option" where
  "compare_entry_contents first second s =
     (case entries s first of None \<Rightarrow> None | Some a \<Rightarrow>
       (case strings s (path a) of None \<Rightarrow> None | Some pa \<Rightarrow>
         (case fopen pa s of (first_stream, s1) \<Rightarrow>
           (case entries s1 second of None \<Rightarrow> None | Some b \<Rightarrow>
             (case strings s1 (path b) of None \<Rightarrow> None | Some pb \<Rightarrow>
               (case fopen pb s1 of (second_stream, s2) \<Rightarrow>
                 (case first_stream of
                    None \<Rightarrow>
                      (case second_stream of
                         None \<Rightarrow> Some (- 1, s2)
                       | Some g \<Rightarrow> Some (- 1, fclose pb s2))
                  | Some f \<Rightarrow>
                      (case second_stream of
                         None \<Rightarrow> Some (- 1, fclose pa s2)
                       | Some g \<Rightarrow>
                           Some (contents_loop f g, fclose pb (fclose pa s2))))))))))"

definition compare_entries ::
  "'c sha1 \<Rightarrow> addr \<Rightarrow> addr \<Rightarrow> state \<Rightarrow> (int \<times> state) option" where
  "compare_entries H first second s =
     (case entries s first of None \<Rightarrow> None | Some a \<Rightarrow>
       (case entries s second of None \<Rightarrow> None | Some b \<Rightarrow>
          if e_size a \<noteq> e_size b then Some (- 1, s)
          else
            (case compare_entry_checksums H first second s of None \<Rightarrow> None | Some (r, s1) \<Rightarrow>
               if r \<noteq> 0 then Some (- 1, s1)
               else if thorough_flag s1 \<noteq> 0 then
                 (case compare_entry_contents first second s1 of None \<Rightarrow> None | Some (r', s2) \<Rightarrow>
                    if r' \<noteq> 0 then Some (- 1, s2) else Some (0, s2))
               else Some (0, s1))))"

text \<open>An entry compared with a copy of itself made on the spot.\<close>

definition compare_with_clone :: "'c sha1 \<Rightarrow> addr \<Rightarrow> state \<Rightarrow> (int \<times> state) option" where
  "compare_with_clone H entry s =
     (case copy_entry entry s of None \<Rightarrow> None
      | Some (copy, s') \<Rightarrow> compare_entries H entry copy s')"

subsection \<open>Sequences of calls\<close>

text \<open>
  A client of the file calls its functions one after the other; between two calls the
  outside world may replace the file system and set the two flags.
\<close>

datatype call =
    Make_entry string int
  | Copy_entry addr
  | Get_entry_checksum addr
  | Compare_entry_checksums addr addr
  | Compare_entry_contents addr addr
  | Compare_entries addr addr
  | Environment "string \<rightharpoonup> disk_file" int int

fun run_call :: "'c sha1 \<Rightarrow> call \<Rightarrow> state \<Rightarrow> state option" where
  "run_call H (Make_entry p sz) s = Some (snd (make_entry p sz s))"
| "run_call H (Copy_entry e) s = map_option snd (copy_entry e s)"
| "run_call H (Get_entry_checksum e) s = map_option snd (get_entry_checksum H e s)"
| "run_call H (Compare_entry_checksums a b) s = map_option snd (compare_entry_checksums H a b s)"
| "run_call H (Compare_entry_contents a b) s = map_option snd (compare_entry_contents a b s)"
| "run_call H (Compare_entries a b) s = map_option snd (compare_entries H a b s)"
| "run_call H (Environment fs q t) s = Some (s\<lparr>files := fs, quiet_flag := q, thorough_flag := t\<rparr>)"

fun run_calls :: "'c sha1 \<Rightarrow> call list \<Rightarrow> state \<Rightarrow> state option" where
  "run_calls H [] s = Some s"
| "run_calls H (c # cs) s =
     (case run_call H c s of None \<Rightarrow> None | Some s' \<Rightarrow> run_calls H cs s')"

subsection \<open>Auxiliary notions for the proofs\<close>

text \<open>The digest \<^verbatim>\<open>get_entry_checksum\<close> computes for a file, if reading it succeeds.\<close>

definition file_checksum :: "'c sha1 \<Rightarrow> disk_file \<Rightarrow> byte list option" where
  "file_checksum H f = map_option (SHA1Final H) (read_loop H (SHA1Init H) (open_stream f))"

text \<open>
  What \<^verbatim>\<open>get_entry_checksum\<close> does to the entry it is called on, as a function of the
  entry, the string store and the file system alone: the result code and the new entry.
\<close>

definition checksum_step ::
  "'c sha1 \<Rightarrow> (addr \<rightharpoonup> string) \<Rightarrow> (string \<rightharpoonup> disk_file) \<Rightarrow> Entry \<Rightarrow> (int \<times> Entry) option" where
  "checksum_step H strs fs e =
     (if status e = INVALID then Some (- 1, e)
      else if status e \<noteq> UNTOUCHED then Some (0, e)
      else
        (case strs (path e) of None \<Rightarrow> None | Some p \<Rightarrow>
           (case fs p of
              None \<Rightarrow> Some (- 1, e\<lparr>status := INVALID\<rparr>)
            | Some f \<Rightarrow>
                (case file_checksum H f of
                   None \<Rightarrow> Some (- 1, e\<lparr>status := INVALID\<rparr>)
                 | Some d \<Rightarrow> Some (0, e\<lparr>checksum := d, status := CHECKSUMMED\<rparr>)))))"

text \<open>The transitions of the status field that the state machine allows.\<close>

definition status_step :: "Status \<Rightarrow> Status \<Rightarrow> bool" where
  "status_step old new = (new = old \<or> old = UNTOUCHED)"

text \<open>The allocator's invariant: everything stored lies below the next unused address.\<close>

definition heap_ok :: "state \<Rightarrow> bool" where
  "heap_ok s = (dom (entries s) \<subseteq> {..<brk s} \<and> dom (strings s) \<subseteq> {..<brk s})"

text \<open>Every entry that is not \<open>CHECKSUMMED\<close> still has the all-zero checksum.\<close>

definition zero_until_checksummed :: "state \<Rightarrow> bool" where
  "zero_until_checksummed s =
     (\<forall>x e. entries s x = Some e \<longrightarrow>
        status e = CHECKSUMMED \<or> checksum e = replicate SHA1_HASH_SIZE 0)"

text \<open>The number of \<^verbatim>\<open>fopen\<close> calls in a trace.\<close>

definition opens :: "event list \<Rightarrow> nat" where
  "opens tr = length (filter (\<lambda>ev. case ev of Fopen p \<Rightarrow> True | _ \<Rightarrow> False) tr)"

text \<open>Two states with the same string store, allocator, file system and flags.\<close>

definition same_world :: "state \<Rightarrow> state \<Rightarrow> bool" where
  "same_world s s' =
     (strings s' = strings s \<and> brk s' = brk s \<and> files s' = files s \<and>
      quiet_flag s' = quiet_flag s \<and> thorough_flag s' = thorough_flag s)"

text \<open>
  The effect of the comparison functions on the store: the same world, the same
  allocated entries, each with its path and size unchanged, its status moved along the
  state machine, and its checksum unchanged unless the entry went from \<open>UNTOUCHED\<close> to
  \<open>CHECKSUMMED\<close>.
\<close>

definition evolves :: "state \<Rightarrow> state \<Rightarrow> bool" where
  "evolves s s' =
     (same_world s s' \<and> dom (entries s') = dom (entries s) \<and>
      (\<forall>x e. entries s x = Some e \<longrightarrow>
         (\<exists>e'. entries s' x = Some e' \<and> path e' = path e \<and> e_size e' = e_size e \<and>
               status_step (status e) (status e') \<and>
               (checksum e' = checksum e \<or>
                (status e = UNTOUCHED \<and> status e' = CHECKSUMMED)))))"

text \<open>The outcome of the byte-by-byte stage, from the two files found under the paths.\<close>

definition contents_verdict :: "disk_file option \<Rightarrow> disk_file option \<Rightarrow> int" where
  "contents_verdict fa fb =
     (case fa of None \<Rightarrow> - 1 | Some f \<Rightarrow>
        (case fb of None \<Rightarrow> - 1 | Some g \<Rightarrow> if bytes f = bytes g then 0 else - 1))"

subsection \<open>A concrete instance\<close>

text \<open>
  A stand-in for the SHA-1 routines with easy collisions: the context is the sum of the
  bytes seen so far, the digest is that sum followed by 19 zero bytes.
\<close>

definition sum_sha1 :: "byte sha1" where
  "sum_sha1 =
     \<lparr>SHA1Init = 0, SHA1Update = (\<lambda>c buf. c + sum_list buf),
      SHA1Final = (\<lambda>c. c # replicate 19 0)\<rparr>"

definition empty_state :: state where
  "empty_state =
     \<lparr>entries = Map.empty, strings = Map.empty, brk = 1, files = Map.empty,
      quiet_flag = 0, thorough_flag = 0, trace = []\<rparr>"

definition entry_a :: Entry where
  "entry_a =
     \<lparr>e_next = None, path = 2, e_size = 2, status = UNTOUCHED,
      checksum = replicate SHA1_HASH_SIZE 0\<rparr>"

definition entry_b :: Entry where
  "entry_b =
     \<lparr>e_next = None, path = 4, e_size = 2, status = UNTOUCHED,
      checksum = replicate SHA1_HASH_SIZE 0\<rparr>"

definition entry_c :: Entry where
  "entry_c =
     \<lparr>e_next = None, path = 6, e_size = 3, status = UNTOUCHED,
      checksum = replicate SHA1_HASH_SIZE 0\<rparr>"

text \<open>
  Three fresh entries for three files: \<open>a\<close> and \<open>b\<close> have the same size and, under
  \<open>sum_sha1\<close>, the same digest, but differ in both bytes; \<open>c\<close> is longer.
\<close>

definition file_a :: disk_file where
  "file_a = \<lparr>bytes = [1, 2], fails = False\<rparr>"

definition file_b :: disk_file where
  "file_b = \<lparr>bytes = [2, 1], fails = False\<rparr>"

definition file_c :: disk_file where
  "file_c = \<lparr>bytes = [7, 7, 7], fails = False\<rparr>"

definition example_state :: state where
  "example_state =
     \<lparr>entries = [1 \<mapsto> entry_a, 3 \<mapsto> entry_b, 5 \<mapsto> entry_c],
      strings = [2 \<mapsto> ''a'', 4 \<mapsto> ''b'', 6 \<mapsto> ''c''],
      brk = 7,
      files = [''a'' \<mapsto> file_a, ''b'' \<mapsto> file_b, ''c'' \<mapsto> file_c],
      quiet_flag = 0, thorough_flag = 0, trace = []\<rparr>"

text \<open>
  The same entries after the files have changed: \<open>a\<close> is gone, and reading \<open>c\<close>
  fails with an error after its first byte.
\<close>

definition unreadable_state :: state where
  "unreadable_state =
     example_state\<lparr>files := [''b'' \<mapsto> file_b, ''c'' \<mapsto> \<lparr>bytes = [7], fails = True\<rparr>]\<rparr>"

text \<open>The same entries, but the file \<open>b\<close> now has the very bytes of the file \<open>a\<close>.\<close>

definition twin_state :: state where
  "twin_state =
     example_state\<lparr>files := [''a'' \<mapsto> file_a, ''b'' \<mapsto> file_a, ''c'' \<mapsto> file_c]\<rparr>"

text \<open>
  The same entries and files, but entry \<open>a\<close> was found unreadable at some earlier time.
\<close>

definition stale_state :: state where
  "stale_state =
     example_state\<lparr>entries := [1 \<mapsto> entry_a\<lparr>status := INVALID\<rparr>, 3 \<mapsto> entry_b,
                                 5 \<mapsto> entry_c]\<rparr>"

text \<open>
  Two entries that were checksummed while their files were intact and equal; since then
  reading either file fails with an error after the first byte.  The byte-by-byte stage
  is enabled.
\<close>

definition damaged_state :: state where
  "damaged_state =
     \<lparr>entries = [1 \<mapsto> entry_a\<lparr>status := CHECKSUMMED, checksum := 3 # replicate 19 0\<rparr>,
                 3 \<mapsto> entry_b\<lparr>status := CHECKSUMMED, checksum := 3 # replicate 19 0\<rparr>],
      strings = [2 \<mapsto> ''a'', 4 \<mapsto> ''b''],
      brk = 5,
      files = [''a'' \<mapsto> \<lparr>bytes = [1], fails = True\<rparr>,
               ''b'' \<mapsto> \<lparr>bytes = [1], fails = True\<rparr>],
      quiet_flag = 0, thorough_flag = 1, trace = []\<rparr>"

subsection \<open>The three loops\<close>

text \<open>
  The checksum loop reports equality on equal arrays and is symmetric; the byte loop
  returns \<open>0\<close> exactly when the two streams have the same pending bytes, whatever ends
  them; the read loop fails exactly on a stream whose last read fails.
\<close>

lemma uint_not_EOF: "uint (b::byte) \<noteq> - 1"
proof
  assume "uint b = - 1"
  moreover have "0 \<le> uint b" by simp
  ultimately show False by linarith
qed

lemma checksum_loop_refl: "checksum_loop i a a = 0"
proof (induction "SHA1_HASH_SIZE - i" arbitrary: i)
  case 0
  then show ?case by (subst checksum_loop.simps) simp
next
  case (Suc n)
  then have "checksum_loop (i + 1) a a = 0" by simp
  then show ?case by (subst checksum_loop.simps) simp
qed

lemma checksum_loop_sym: "checksum_loop i a b = checksum_loop i b a"
proof (induction "SHA1_HASH_SIZE - i" arbitrary: i)
  case 0
  then show ?case
    by (subst checksum_loop.simps, subst (2) checksum_loop.simps) simp
next
  case (Suc n)
  then have "checksum_loop (i + 1) a b = checksum_loop (i + 1) b a" by simp
  then show ?case
    by (subst checksum_loop.simps, subst (2) checksum_loop.simps) auto
qed

lemma checksum_loop_range: "checksum_loop i a b = 0 \<or> checksum_loop i a b = - 1"
proof (induction "SHA1_HASH_SIZE - i" arbitrary: i)
  case 0
  then show ?case by (subst checksum_loop.simps, subst (2) checksum_loop.simps) simp
next
  case (Suc n)
  then have "checksum_loop (i + 1) a b = 0 \<or> checksum_loop (i + 1) a b = - 1" by simp
  then show ?case
    by (subst checksum_loop.simps, subst (2) checksum_loop.simps) auto
qed

lemma contents_loop_eq: "contents_loop f g = (if pending f = pending g then 0 else - 1)"
proof (induction f g rule: contents_loop.induct)
  case (1 f g)
  show ?case
  proof (cases "pending f")
    case Nil
    then show ?thesis using uint_not_EOF
      by (cases "pending g")
        (simp_all add: contents_loop.simps [of f g] fgetc_def EOF_def eq_commute [of "- 1"])
  next
    case (Cons b bs)
    note f = Cons
    show ?thesis
    proof (cases "pending g")
      case Nil
      then show ?thesis using f
        by (simp add: contents_loop.simps [of f g] fgetc_def EOF_def uint_not_EOF)
    next
      case (Cons c cs)
      note g = Cons
      show ?thesis
      proof (cases "b = c")
        case True
        then show ?thesis
          using f g "1.IH" [of "uint b" "f\<lparr>pending := bs\<rparr>" "uint c" "g\<lparr>pending := cs\<rparr>"]
          by (simp add: contents_loop.simps [of f g] fgetc_def EOF_def uint_not_EOF)
      next
        case False
        then have "uint b \<noteq> uint c" by (simp add: word_uint_eq_iff)
        then show ?thesis using f g False
          by (simp add: contents_loop.simps [of f g] fgetc_def)
      qed
    qed
  qed
qed

lemma read_loop_bad: "bad f \<Longrightarrow> read_loop H c f = None"
proof (induction H c f rule: read_loop.induct)
  case (1 H c f)
  show ?case
  proof (cases "BUFFER_SIZE \<le> length (pending f)")
    case True
    then have "fread BUFFER_SIZE f =
        (take BUFFER_SIZE (pending f), f\<lparr>pending := drop BUFFER_SIZE (pending f)\<rparr>)"
      by (simp add: fread_def)
    moreover from True have "pending f \<noteq> []"
      by (auto simp: BUFFER_SIZE_def)
    ultimately show ?thesis using 1 True
      by (subst read_loop.simps) (auto simp: BUFFER_SIZE_def)
  next
    case False
    then show ?thesis using 1
      by (subst read_loop.simps) (simp add: fread_def)
  qed
qed

lemma read_loop_good: "\<not> bad f \<Longrightarrow> \<not> err f \<Longrightarrow> \<exists>c'. read_loop H c f = Some c'"
proof (induction H c f rule: read_loop.induct)
  case (1 H c f)
  show ?case
  proof (cases "BUFFER_SIZE \<le> length (pending f)")
    case True
    then have "fread BUFFER_SIZE f =
        (take BUFFER_SIZE (pending f), f\<lparr>pending := drop BUFFER_SIZE (pending f)\<rparr>)"
      by (simp add: fread_def)
    moreover from True have "pending f \<noteq> []"
      by (auto simp: BUFFER_SIZE_def)
    ultimately show ?thesis using 1 True
      by (subst read_loop.simps) (auto simp: BUFFER_SIZE_def)
  next
    case False
    then have fr: "fread BUFFER_SIZE f =
        (pending f, f\<lparr>pending := [], err := (err f \<or> bad f)\<rparr>)"
      by (simp add: fread_def)
    show ?thesis
    proof (cases "pending f = []")
      case True
      then show ?thesis using fr 1 by (subst read_loop.simps) simp
    next
      case False
      have "\<exists>c'. read_loop H (SHA1Update H c (pending f))
                (f\<lparr>pending := [], err := (err f \<or> bad f)\<rparr>) = Some c'"
        using "1.prems" by (subst read_loop.simps) (simp add: fread_def BUFFER_SIZE_def)
      then show ?thesis using fr 1 False by (subst read_loop.simps) simp
    qed
  qed
qed

lemma file_checksum_fails: "fails f \<Longrightarrow> file_checksum H f = None"
  by (simp add: file_checksum_def open_stream_def read_loop_bad)

lemma file_checksum_readable: "\<not> fails f \<Longrightarrow> \<exists>d. file_checksum H f = Some d"
  using read_loop_good [of "open_stream f" H "SHA1Init H"]
  by (auto simp: file_checksum_def open_stream_def)

subsection \<open>One call of \<^verbatim>\<open>get_entry_checksum\<close>\<close>

text \<open>
  \<^verbatim>\<open>get_entry_checksum\<close> replaces the entry it is called on by the one that
  \<open>checksum_step\<close> computes, returns the code that \<open>checksum_step\<close> computes, and leaves
  the rest of the store, the file system and the flags alone.
\<close>

lemma get_entry_checksum_step:
  assumes "entries s x = Some e"
    and "checksum_step H (strings s) (files s) e = Some (r, e')"
  shows "\<exists>s'. get_entry_checksum H x s = Some (r, s') \<and>
           entries s' = (entries s)(x \<mapsto> e') \<and> same_world s s'"
proof (cases "status e = UNTOUCHED")
  case False
  from assms False have "get_entry_checksum H x s = Some (r, s)" and "e' = e"
    by (auto simp: get_entry_checksum_def checksum_step_def split: if_splits)
  then show ?thesis using assms(1) by (simp add: map_upd_triv same_world_def)
next
  case True
  then show ?thesis using assms
    by (auto simp: get_entry_checksum_def checksum_step_def fopen_def fclose_def
        warning_def file_checksum_def Let_def same_world_def split: option.splits)
qed

lemma get_entry_checksum_undefined:
  assumes "entries s x = Some e"
    and "checksum_step H (strings s) (files s) e = None"
  shows "get_entry_checksum H x s = None"
  using assms
  by (auto simp: get_entry_checksum_def checksum_step_def split: if_splits option.splits)

lemma checksum_step_total:
  "strs (path e) = Some p \<Longrightarrow> \<exists>r e'. checksum_step H strs fs e = Some (r, e')"
  by (auto simp: checksum_step_def split: option.splits)

lemma checksum_step_frame:
  assumes "checksum_step H strs fs e = Some (r, e')"
  shows "path e' = path e" and "e_size e' = e_size e" and "e_next e' = e_next e"
    and "status_step (status e) (status e')"
    and "r = 0 \<or> r = - 1"
    and "r = 0 \<Longrightarrow> status e' = CHECKSUMMED"
    and "r \<noteq> 0 \<Longrightarrow> status e' = INVALID \<and> checksum e' = checksum e"
    and "checksum e' = checksum e \<or> (status e = UNTOUCHED \<and> status e' = CHECKSUMMED)"
  using assms
  by (auto simp: checksum_step_def status_step_def split: if_splits option.splits
      intro: Status.exhaust)

lemma checksum_step_again:
  assumes "checksum_step H strs fs e = Some (r, e')"
  shows "checksum_step H strs' fs' e' = Some (r, e')"
  using assms
  by (auto simp: checksum_step_def split: if_splits option.splits)


lemma status_step_refl: "status_step a a"
  by (simp add: status_step_def)

lemma status_step_trans: "status_step a b \<Longrightarrow> status_step b c \<Longrightarrow> status_step a c"
  by (auto simp: status_step_def)

lemma evolves_refl: "evolves s s"
  by (simp add: evolves_def same_world_def status_step_refl)

lemma evolves_trans:
  assumes "evolves s t" and "evolves t u"
  shows "evolves s u"
  unfolding evolves_def
proof (intro conjI allI impI)
  show "same_world s u" using assms by (simp add: evolves_def same_world_def)
  show "dom (entries u) = dom (entries s)" using assms by (simp add: evolves_def)
  fix x e assume "entries s x = Some e"
  then obtain e1 where 1: "entries t x = Some e1" "path e1 = path e" "e_size e1 = e_size e"
      "status_step (status e) (status e1)"
      "checksum e1 = checksum e \<or> (status e = UNTOUCHED \<and> status e1 = CHECKSUMMED)"
    using assms(1) unfolding evolves_def by blast
  then obtain e2 where 2: "entries u x = Some e2" "path e2 = path e1" "e_size e2 = e_size e1"
      "status_step (status e1) (status e2)"
      "checksum e2 = checksum e1 \<or> (status e1 = UNTOUCHED \<and> status e2 = CHECKSUMMED)"
    using assms(2) unfolding evolves_def by blast
  from 1(4,5) 2(4,5)
  have "checksum e2 = checksum e \<or> (status e = UNTOUCHED \<and> status e2 = CHECKSUMMED)"
    by (auto simp: status_step_def)
  with 1 2 show "\<exists>e'. entries u x = Some e' \<and> path e' = path e \<and> e_size e' = e_size e \<and>
      status_step (status e) (status e') \<and>
      (checksum e' = checksum e \<or> (status e = UNTOUCHED \<and> status e' = CHECKSUMMED))"
    by (auto intro: status_step_trans)
qed

lemma evolves_update:
  assumes "entries s x = Some e" and "checksum_step H strs fs e = Some (r, e')"
    and "entries s' = (entries s)(x \<mapsto> e')" and "same_world s s'"
  shows "evolves s s'"
  using assms checksum_step_frame(1,2,4,8) [OF assms(2)]
  by (auto simp: evolves_def status_step_refl)

lemma get_entry_checksum_evolves:
  assumes "get_entry_checksum H x s = Some (r, s')"
  shows "evolves s s'"
proof -
  from assms obtain e where e: "entries s x = Some e"
    by (auto simp: get_entry_checksum_def split: option.splits)
  with assms obtain r0 e' where st: "checksum_step H (strings s) (files s) e = Some (r0, e')"
    using get_entry_checksum_undefined [OF e, of H]
    by (cases "checksum_step H (strings s) (files s) e") auto
  from get_entry_checksum_step [OF e st] assms show ?thesis
    using evolves_update [OF e st] by auto
qed

subsection \<open>The result of the stages\<close>

lemma compare_entry_checksums_verdict:
  assumes a: "entries s a = Some ea" and b: "entries s b = Some eb"
    and sa: "checksum_step H (strings s) (files s) ea = Some (ra, ea')"
    and sb: "checksum_step H (strings s) (files s) eb = Some (rb, eb')"
  shows "\<exists>s'. compare_entry_checksums H a b s =
            Some (if ra \<noteq> 0 \<or> rb \<noteq> 0 then - 1
                  else checksum_loop 0 (checksum ea') (checksum eb'), s') \<and>
           evolves s s'"
proof -
  obtain s1 where g1: "get_entry_checksum H a s = Some (ra, s1)"
    and e1: "entries s1 = (entries s)(a \<mapsto> ea')" and w1: "same_world s s1"
    using get_entry_checksum_step [OF a sa] by blast
  have ev1: "evolves s s1" using g1 by (rule get_entry_checksum_evolves)
  show ?thesis
  proof (cases "ra \<noteq> 0")
    case True
    then show ?thesis using g1 ev1 by (simp add: compare_entry_checksums_def)
  next
    case False
    define eb1 where "eb1 = (if b = a then ea' else eb)"
    have b1: "entries s1 b = Some eb1"
      using e1 b by (simp add: eb1_def)
    have sb1: "checksum_step H (strings s1) (files s1) eb1 = Some (rb, eb')"
    proof (cases "b = a")
      case True
      with a b sa sb have "ea = eb" "ra = rb" "ea' = eb'" by auto
      then show ?thesis using checksum_step_again [OF sb] True by (simp add: eb1_def)
    next
      case False
      then show ?thesis using sb w1 by (simp add: eb1_def same_world_def)
    qed
    obtain s2 where g2: "get_entry_checksum H b s1 = Some (rb, s2)"
      and e2: "entries s2 = (entries s1)(b \<mapsto> eb')" and w2: "same_world s1 s2"
      using get_entry_checksum_step [OF b1 sb1] by blast
    have ev2: "evolves s s2"
      using ev1 get_entry_checksum_evolves [OF g2] by (rule evolves_trans)
    show ?thesis
    proof (cases "rb \<noteq> 0")
      case True
      then show ?thesis using g1 g2 ev2 False by (simp add: compare_entry_checksums_def)
    next
      case rb: False
      have "entries s2 b = Some eb'" using e2 by simp
      moreover have "entries s2 a = Some ea'"
      proof (cases "b = a")
        case True
        with a b sa sb have "ea' = eb'" by auto
        then show ?thesis using e2 True by simp
      next
        case False
        then show ?thesis using e1 e2 by simp
      qed
      ultimately show ?thesis using g1 g2 ev2 False rb
        by (simp add: compare_entry_checksums_def)
    qed
  qed
qed

lemma compare_entry_contents_verdict:
  assumes "entries s a = Some ea" and "entries s b = Some eb"
    and "strings s (path ea) = Some pa" and "strings s (path eb) = Some pb"
  shows "\<exists>s'. compare_entry_contents a b s =
            Some (contents_verdict (files s pa) (files s pb), s') \<and>
           entries s' = entries s \<and> same_world s s'"
  using assms
  by (auto simp: compare_entry_contents_def contents_verdict_def fopen_def fclose_def
      same_world_def contents_loop_eq open_stream_def split: option.splits)

lemma get_entry_checksum_result:
  assumes "entries s x = Some e" and "get_entry_checksum H x s = Some (r, t)"
  shows "\<exists>e'. checksum_step H (strings s) (files s) e = Some (r, e') \<and>
           entries t = (entries s)(x \<mapsto> e') \<and> same_world s t"
proof (cases "checksum_step H (strings s) (files s) e")
  case None
  then show ?thesis
    using get_entry_checksum_undefined [OF assms(1) None] assms(2) by simp
next
  case (Some p)
  obtain r0 e' where p: "p = (r0, e')" by (cases p)
  with Some get_entry_checksum_step [OF assms(1), of H r0 e'] assms(2)
  show ?thesis by auto
qed

lemma contents_verdict_sym: "contents_verdict f g = contents_verdict g f"
  by (auto simp: contents_verdict_def split: option.splits)

lemma contents_verdict_same: "contents_verdict (Some f) (Some f) = 0"
  by (simp add: contents_verdict_def)

lemma compare_entries_verdict:
  assumes a: "entries s a = Some ea" and b: "entries s b = Some eb"
    and pa: "strings s (path ea) = Some pa" and pb: "strings s (path eb) = Some pb"
    and sa: "checksum_step H (strings s) (files s) ea = Some (ra, ea')"
    and sb: "checksum_step H (strings s) (files s) eb = Some (rb, eb')"
  shows "\<exists>s'. compare_entries H a b s =
            Some (if e_size ea \<noteq> e_size eb then - 1
                  else if ra \<noteq> 0 \<or> rb \<noteq> 0 then - 1
                  else if checksum_loop 0 (checksum ea') (checksum eb') \<noteq> 0 then - 1
                  else if thorough_flag s \<noteq> 0 then contents_verdict (files s pa) (files s pb)
                  else 0, s') \<and>
           evolves s s'"
proof (cases "e_size ea \<noteq> e_size eb")
  case True
  then show ?thesis using a b by (simp add: compare_entries_def evolves_refl)
next
  case size: False
  obtain s1 where c1: "compare_entry_checksums H a b s =
        Some (if ra \<noteq> 0 \<or> rb \<noteq> 0 then - 1
              else checksum_loop 0 (checksum ea') (checksum eb'), s1)"
    and ev1: "evolves s s1"
    using compare_entry_checksums_verdict [OF a b sa sb] by blast
  let ?r = "if ra \<noteq> 0 \<or> rb \<noteq> 0 then - 1 else checksum_loop 0 (checksum ea') (checksum eb')"
  show ?thesis
  proof (cases "?r \<noteq> 0")
    case True
    then show ?thesis using a b size c1 ev1
      by (auto simp: compare_entries_def)
  next
    case r0: False
    then have ok: "ra = 0" "rb = 0" "checksum_loop 0 (checksum ea') (checksum eb') = 0"
      by (auto split: if_splits)
    show ?thesis
    proof (cases "thorough_flag s \<noteq> 0")
      case False
      moreover have "thorough_flag s1 = thorough_flag s"
        using ev1 by (simp add: evolves_def same_world_def)
      ultimately show ?thesis using a b size c1 ev1 ok
        by (simp add: compare_entries_def)
    next
      case True
      have w: "same_world s s1" using ev1 by (simp add: evolves_def)
      obtain ea1 where a1: "entries s1 a = Some ea1" "path ea1 = path ea"
        using ev1 a unfolding evolves_def by blast
      obtain eb1 where b1: "entries s1 b = Some eb1" "path eb1 = path eb"
        using ev1 b unfolding evolves_def by blast
      have pa1: "strings s1 (path ea1) = Some pa" and pb1: "strings s1 (path eb1) = Some pb"
        using pa pb a1 b1 w by (simp_all add: same_world_def)
      obtain s2 where c2: "compare_entry_contents a b s1 =
            Some (contents_verdict (files s1 pa) (files s1 pb), s2)"
        and e2: "entries s2 = entries s1" and w2: "same_world s1 s2"
        using compare_entry_contents_verdict [OF a1(1) b1(1) pa1 pb1] by blast
      have "evolves s1 s2"
        using e2 w2 by (simp add: evolves_def status_step_refl)
      with ev1 have ev2: "evolves s s2" by (rule evolves_trans)
      have fl: "thorough_flag s1 = thorough_flag s" "files s1 = files s"
        using w by (simp_all add: same_world_def)
      have cv: "contents_verdict (files s pa) (files s pb) = 0 \<or>
                contents_verdict (files s pa) (files s pb) = - 1"
        by (auto simp: contents_verdict_def split: option.splits)
      show ?thesis using a b size c1 c2 ev2 ok True fl cv
        by (auto simp: compare_entries_def)
    qed
  qed
qed

subsection \<open>Files shorter than the buffer\<close>

lemma read_loop_short:
  assumes "length (pending f) < BUFFER_SIZE" and "\<not> bad f" and "\<not> err f"
  shows "read_loop H c f = Some (if pending f = [] then c else SHA1Update H c (pending f))"
proof -
  have fr: "fread BUFFER_SIZE f = (pending f, f\<lparr>pending := [], err := (err f \<or> bad f)\<rparr>)"
    using assms(1) by (simp add: fread_def)
  have last: "read_loop H c' (f\<lparr>pending := [], err := (err f \<or> bad f)\<rparr>) = Some c'" for c'
    using assms(2,3) by (subst read_loop.simps) (simp add: fread_def BUFFER_SIZE_def)
  show ?thesis using fr last assms(2,3) by (subst read_loop.simps) simp
qed

lemma file_checksum_short:
  assumes "length (bytes f) < BUFFER_SIZE" and "\<not> fails f"
  shows "file_checksum H f =
           Some (SHA1Final H (if bytes f = [] then SHA1Init H
                              else SHA1Update H (SHA1Init H) (bytes f)))"
  using read_loop_short [of "open_stream f" H "SHA1Init H"] assms
  by (simp add: file_checksum_def open_stream_def)

subsection \<open>The store across calls\<close>

lemma get_entry_checksum_returns:
  assumes "entries s x = Some e" and "strings s (path e) = Some p"
  shows "\<exists>r s'. get_entry_checksum H x s = Some (r, s')"
proof -
  obtain r e' where "checksum_step H (strings s) (files s) e = Some (r, e')"
    using checksum_step_total [of "strings s" e p H "files s"] assms(2) by blast
  from get_entry_checksum_step [OF assms(1) this] show ?thesis by blast
qed

lemma heap_ok_iff:
  "heap_ok s = (\<forall>a. brk s \<le> a \<longrightarrow> entries s a = None \<and> strings s a = None)"
  unfolding heap_ok_def by (auto simp: subset_iff dom_def not_less [symmetric])

lemma heap_ok_fresh:
  assumes "heap_ok s"
  shows "entries s (brk s) = None" and "strings s (brk s) = None"
    and "strings s (Suc (brk s)) = None"
    and "entries s x = Some e \<Longrightarrow> x < brk s"
    and "strings s y = Some str \<Longrightarrow> y < brk s"
  using assms by (auto simp: heap_ok_def)

lemma evolves_heap_ok: "heap_ok s \<Longrightarrow> evolves s s' \<Longrightarrow> heap_ok s'"
  by (simp add: heap_ok_def evolves_def same_world_def)

lemma evolves_status:
  "evolves s s' \<Longrightarrow> entries s x = Some e \<Longrightarrow>
   \<exists>e'. entries s' x = Some e' \<and> status_step (status e) (status e')"
  unfolding evolves_def by blast

lemma evolves_zero:
  assumes "evolves s s'" and "zero_until_checksummed s"
  shows "zero_until_checksummed s'"
  unfolding zero_until_checksummed_def
proof (intro allI impI)
  fix x e' assume e': "entries s' x = Some e'"
  with assms(1) obtain e where e: "entries s x = Some e"
    unfolding evolves_def by (metis domI domD)
  with assms(1) e' have "status_step (status e) (status e')"
    and "checksum e' = checksum e \<or> (status e = UNTOUCHED \<and> status e' = CHECKSUMMED)"
    unfolding evolves_def by fastforce+
  moreover from assms(2) e
  have "status e = CHECKSUMMED \<or> checksum e = replicate SHA1_HASH_SIZE 0"
    unfolding zero_until_checksummed_def by blast
  ultimately show "status e' = CHECKSUMMED \<or> checksum e' = replicate SHA1_HASH_SIZE 0"
    by (auto simp: status_step_def)
qed

lemma compare_entry_checksums_evolves:
  assumes "compare_entry_checksums H a b s = Some (r, s')"
  shows "evolves s s'"
proof -
  from assms obtain r1 s1 where g1: "get_entry_checksum H a s = Some (r1, s1)"
    by (auto simp: compare_entry_checksums_def split: option.splits)
  have ev1: "evolves s s1" using g1 by (rule get_entry_checksum_evolves)
  show ?thesis
  proof (cases "r1 \<noteq> 0")
    case True
    then show ?thesis using assms g1 ev1 by (simp add: compare_entry_checksums_def)
  next
    case False
    with assms g1 obtain r2 s2 where g2: "get_entry_checksum H b s1 = Some (r2, s2)"
      by (auto simp: compare_entry_checksums_def split: option.splits)
    have ev2: "evolves s s2"
      using ev1 get_entry_checksum_evolves [OF g2] by (rule evolves_trans)
    from assms g1 g2 False have "s' = s2"
      by (auto simp: compare_entry_checksums_def split: option.splits if_splits)
    then show ?thesis using ev2 by simp
  qed
qed

lemma compare_entry_contents_evolves:
  assumes "compare_entry_contents a b s = Some (r, s')"
  shows "evolves s s'"
  using assms
  by (auto simp: compare_entry_contents_def evolves_def same_world_def fopen_def fclose_def
      status_step_refl split: option.splits)

lemma compare_entries_evolves:
  assumes "compare_entries H a b s = Some (r, s')"
  shows "evolves s s'"
proof -
  from assms obtain ea eb where a: "entries s a = Some ea" and b: "entries s b = Some eb"
    by (auto simp: compare_entries_def split: option.splits)
  show ?thesis
  proof (cases "e_size ea \<noteq> e_size eb")
    case True
    then show ?thesis using assms a b by (simp add: compare_entries_def evolves_refl)
  next
    case False
    with assms a b obtain r1 s1 where c1: "compare_entry_checksums H a b s = Some (r1, s1)"
      by (auto simp: compare_entries_def split: option.splits)
    have ev1: "evolves s s1" using c1 by (rule compare_entry_checksums_evolves)
    show ?thesis
    proof (cases "r1 \<noteq> 0 \<or> thorough_flag s1 = 0")
      case True
      then have "s' = s1" using assms a b False c1
        by (auto simp: compare_entries_def split: if_splits)
      then show ?thesis using ev1 by simp
    next
      case nt: False
      with assms a b False c1 obtain r2 s2 where
        c2: "compare_entry_contents a b s1 = Some (r2, s2)"
        by (auto simp: compare_entries_def split: option.splits)
      from assms a b False c1 c2 nt have "s' = s2"
        by (auto simp: compare_entries_def split: if_splits)
      then show ?thesis
        using ev1 compare_entry_contents_evolves [OF c2] by (auto intro: evolves_trans)
    qed
  qed
qed

lemma run_call_inv:
  assumes ok: "heap_ok s" and run: "run_call H c s = Some s'"
  shows "heap_ok s' \<and>
         (\<forall>x e. entries s x = Some e \<longrightarrow>
            (\<exists>e'. entries s' x = Some e' \<and> status_step (status e) (status e')))"
proof (cases c)
  case (Make_entry p sz)
  then show ?thesis using ok run heap_ok_fresh(1) [OF ok]
    by (auto simp: make_entry_def malloc_def strdup_def heap_ok_iff status_step_refl)
next
  case (Copy_entry x)
  then show ?thesis using ok run heap_ok_fresh(1) [OF ok]
    by (auto simp: copy_entry_def malloc_def strdup_def heap_ok_iff status_step_refl
        split: option.splits)
next
  case (Get_entry_checksum x)
  with run obtain r where "get_entry_checksum H x s = Some (r, s')" by auto
  then have "evolves s s'" by (rule get_entry_checksum_evolves)
  then show ?thesis using ok evolves_heap_ok evolves_status by blast
next
  case (Compare_entry_checksums a b)
  with run obtain r where "compare_entry_checksums H a b s = Some (r, s')" by auto
  then have "evolves s s'" by (rule compare_entry_checksums_evolves)
  then show ?thesis using ok evolves_heap_ok evolves_status by blast
next
  case (Compare_entry_contents a b)
  with run obtain r where "compare_entry_contents a b s = Some (r, s')" by auto
  then have "evolves s s'" by (rule compare_entry_contents_evolves)
  then show ?thesis using ok evolves_heap_ok evolves_status by blast
next
  case (Compare_entries a b)
  with run obtain r where "compare_entries H a b s = Some (r, s')" by auto
  then have "evolves s s'" by (rule compare_entries_evolves)
  then show ?thesis using ok evolves_heap_ok evolves_status by blast
next
  case (Environment fs q t)
  then show ?thesis using ok run by (auto simp: heap_ok_iff status_step_refl)
qed

lemma run_calls_inv:
  assumes "heap_ok s" and "run_calls H cs s = Some s'"
  shows "heap_ok s' \<and>
         (\<forall>x e. entries s x = Some e \<longrightarrow>
            (\<exists>e'. entries s' x = Some e' \<and> status_step (status e) (status e')))"
  using assms
proof (induction cs arbitrary: s)
  case Nil
  then show ?case by (simp add: status_step_refl)
next
  case (Cons c cs)
  then obtain s1 where 1: "run_call H c s = Some s1" and 2: "run_calls H cs s1 = Some s'"
    by (auto split: option.splits)
  from run_call_inv [OF Cons.prems(1) 1] Cons.IH [OF _ 2]
  show ?case by (meson status_step_trans)
qed

lemma copy_entry_effect:
  assumes ok: "heap_ok s" and e: "entries s entry = Some e"
    and p: "strings s (path e) = Some str"
  shows "\<exists>s'. copy_entry entry s = Some (brk s, s') \<and>
           entries s' = (entries s)(brk s \<mapsto>
             \<lparr>e_next = None, path = Suc (brk s), e_size = e_size e, status = status e,
              checksum = checksum e\<rparr>) \<and>
           strings s' = (strings s)(Suc (brk s) \<mapsto> str) \<and>
           brk s' = Suc (Suc (brk s)) \<and> files s' = files s \<and>
           quiet_flag s' = quiet_flag s \<and> thorough_flag s' = thorough_flag s \<and>
           trace s' = trace s"
  using assms by (simp add: copy_entry_def malloc_def strdup_def)

subsection \<open>States reached by calls\<close>

text \<open>
  The allocator's invariant and the all-zero checksum of entries that are not
  \<open>CHECKSUMMED\<close> hold in the empty state and are kept by every call, so they hold in
  every state a client can reach.
\<close>

lemma run_call_zero:
  assumes ok: "heap_ok s" and z: "zero_until_checksummed s" and run: "run_call H c s = Some s'"
  shows "zero_until_checksummed s'"
proof (cases c)
  case (Make_entry p sz)
  with run have es: "entries s' = (entries s)(brk s \<mapsto>
      \<lparr>e_next = None, path = Suc (brk s), e_size = sz, status = UNTOUCHED,
       checksum = replicate SHA1_HASH_SIZE 0\<rparr>)"
    by (auto simp: make_entry_def malloc_def strdup_def)
  show ?thesis
    unfolding zero_until_checksummed_def
  proof (intro allI impI)
    fix x e assume "entries s' x = Some e"
    then show "status e = CHECKSUMMED \<or> checksum e = replicate SHA1_HASH_SIZE 0"
      using es z unfolding zero_until_checksummed_def
      by (cases "x = brk s") auto
  qed
next
  case (Copy_entry x)
  with run obtain e0 where e0: "entries s x = Some e0"
    and es: "entries s' = (entries s)(brk s \<mapsto>
      \<lparr>e_next = None, path = Suc (brk s), e_size = e_size e0, status = status e0,
       checksum = checksum e0\<rparr>)"
    by (auto simp: copy_entry_def malloc_def strdup_def split: option.splits)
  from z e0 have z0: "status e0 = CHECKSUMMED \<or> checksum e0 = replicate SHA1_HASH_SIZE 0"
    unfolding zero_until_checksummed_def by blast
  show ?thesis
    unfolding zero_until_checksummed_def
  proof (intro allI impI)
    fix y e assume "entries s' y = Some e"
    then show "status e = CHECKSUMMED \<or> checksum e = replicate SHA1_HASH_SIZE 0"
      using es z z0 unfolding zero_until_checksummed_def
      by (cases "y = brk s") auto
  qed
next
  case (Get_entry_checksum x)
  with run obtain r where "get_entry_checksum H x s = Some (r, s')" by auto
  then have "evolves s s'" by (rule get_entry_checksum_evolves)
  then show ?thesis using z by (rule evolves_zero)
next
  case (Compare_entry_checksums a b)
  with run obtain r where "compare_entry_checksums H a b s = Some (r, s')" by auto
  then have "evolves s s'" by (rule compare_entry_checksums_evolves)
  then show ?thesis using z by (rule evolves_zero)
next
  case (Compare_entry_contents a b)
  with run obtain r where "compare_entry_contents a b s = Some (r, s')" by auto
  then have "evolves s s'" by (rule compare_entry_contents_evolves)
  then show ?thesis using z by (rule evolves_zero)
next
  case (Compare_entries a b)
  with run obtain r where "compare_entries H a b s = Some (r, s')" by auto
  then have "evolves s s'" by (rule compare_entries_evolves)
  then show ?thesis using z by (rule evolves_zero)
next
  case (Environment fs q t)
  with run have "entries s' = entries s" by auto
  then show ?thesis using z by (simp add: zero_until_checksummed_def)
qed

lemma heap_ok_empty_state: "heap_ok empty_state"
  by (simp add: heap_ok_def empty_state_def)

lemma zero_empty_state: "zero_until_checksummed empty_state"
  by (simp add: zero_until_checksummed_def empty_state_def)

lemma reachable_invariants:
  assumes "heap_ok s" and "zero_until_checksummed s" and "run_calls H cs s = Some s'"
  shows "heap_ok s' \<and> zero_until_checksummed s'"
  using assms
proof (induction cs arbitrary: s)
  case Nil
  then show ?case by simp
next
  case (Cons c cs)
  then obtain s1 where 1: "run_call H c s = Some s1" and 2: "run_calls H cs s1 = Some s'"
    by (auto split: option.splits)
  have "heap_ok s1" using run_call_inv [OF Cons.prems(1) 1] by simp
  moreover have "zero_until_checksummed s1"
    using run_call_zero [OF Cons.prems(1,2) 1] .
  ultimately show ?case using Cons.IH 2 by blast
qed

lemma reachable_from_empty:
  assumes "run_calls H cs empty_state = Some s"
  shows "heap_ok s \<and> zero_until_checksummed s"
  using reachable_invariants [OF heap_ok_empty_state zero_empty_state assms] .

lemma zero_unreadable_state: "zero_until_checksummed unreadable_state"
  by (auto simp: zero_until_checksummed_def unreadable_state_def example_state_def
      entry_a_def entry_b_def entry_c_def split: if_splits)

subsection \<open>Result codes and statuses\<close>

text \<open>
  \<^verbatim>\<open>get_entry_checksum\<close> returns \<open>0\<close> exactly when it leaves the entry
  \<open>CHECKSUMMED\<close>, and \<open>-1\<close> exactly when it leaves it \<open>INVALID\<close>; a comparison that
  returns \<open>0\<close> leaves both entries \<open>CHECKSUMMED\<close>.
\<close>

lemma get_entry_checksum_code:
  assumes "entries s x = Some e" and "get_entry_checksum H x s = Some (r, t)"
  shows "\<exists>e'. entries t x = Some e' \<and>
           (r = 0 \<and> status e' = CHECKSUMMED \<or> r = - 1 \<and> status e' = INVALID)"
proof -
  obtain e' where st: "checksum_step H (strings s) (files s) e = Some (r, e')"
    and t: "entries t = (entries s)(x \<mapsto> e')"
    using get_entry_checksum_result [OF assms] by blast
  from checksum_step_frame(5,6,7) [OF st] t show ?thesis by auto
qed

lemma compare_entry_checksums_zero:
  assumes "compare_entry_checksums H a b s = Some (0, s')"
  shows "\<exists>ea eb. entries s' a = Some ea \<and> entries s' b = Some eb \<and>
           status ea = CHECKSUMMED \<and> status eb = CHECKSUMMED"
proof -
  from assms obtain s1 where g1: "get_entry_checksum H a s = Some (0, s1)"
    and g2: "get_entry_checksum H b s1 = Some (0, s')"
    by (auto simp: compare_entry_checksums_def split: option.splits if_splits)
  obtain e where "entries s a = Some e"
    using g1 by (auto simp: get_entry_checksum_def split: option.splits)
  from get_entry_checksum_code [OF this g1]
  obtain ea1 where a1: "entries s1 a = Some ea1" "status ea1 = CHECKSUMMED" by auto
  obtain eb0 where "entries s1 b = Some eb0"
    using g2 by (auto simp: get_entry_checksum_def split: option.splits)
  from get_entry_checksum_code [OF this g2]
  obtain eb where b: "entries s' b = Some eb" "status eb = CHECKSUMMED" by auto
  from evolves_status [OF get_entry_checksum_evolves [OF g2] a1(1)] a1(2)
  obtain ea where "entries s' a = Some ea" "status ea = CHECKSUMMED"
    by (auto simp: status_step_def)
  with b show ?thesis by blast
qed

lemma compare_entries_zero:
  assumes "compare_entries H a b s = Some (0, s')"
  shows "\<exists>ea eb. entries s' a = Some ea \<and> entries s' b = Some eb \<and>
           status ea = CHECKSUMMED \<and> status eb = CHECKSUMMED"
proof -
  from assms obtain s1 where c1: "compare_entry_checksums H a b s = Some (0, s1)"
    and s': "s' = s1 \<or> (\<exists>r. compare_entry_contents a b s1 = Some (r, s'))"
    by (auto simp: compare_entries_def split: option.splits if_splits)
  from compare_entry_checksums_zero [OF c1]
  obtain ea eb where 1: "entries s1 a = Some ea" "entries s1 b = Some eb"
    "status ea = CHECKSUMMED" "status eb = CHECKSUMMED" by blast
  from s' show ?thesis
  proof
    assume "s' = s1"
    with 1 show ?thesis by blast
  next
    assume "\<exists>r. compare_entry_contents a b s1 = Some (r, s')"
    then obtain r where "compare_entry_contents a b s1 = Some (r, s')" ..
    then have "entries s' = entries s1"
      by (auto simp: compare_entry_contents_def fopen_def fclose_def split: option.splits)
    with 1 show ?thesis by auto
  qed
qed

subsection \<open>Size stage\<close>

text \<open>
  C1.  When the size fields of the two entries differ, \<^verbatim>\<open>compare_entries\<close> returns
  \<open>-1\<close> (not equal) and the state it returns is the state it was given: no stream was
  opened (the trace is unchanged) and no entry's status or checksum changed.
\<close>

theorem compare_entries_size_mismatch:
  assumes "entries s first = Some a" and "entries s second = Some b"
    and "e_size a \<noteq> e_size b"
  shows "compare_entries H first second s = Some (- 1, s)"
  using assms by (simp add: compare_entries_def)

theorem compare_entries_size_mismatch_witness:
  "entries example_state 1 = Some entry_a \<and> entries example_state 5 = Some entry_c \<and>
   e_size entry_a \<noteq> e_size entry_c \<and>
   compare_entries sum_sha1 1 5 example_state = Some (- 1, example_state)"
  using compare_entries_size_mismatch [of example_state 1 entry_a 5 entry_c sum_sha1]
  by (simp add: example_state_def entry_a_def entry_c_def)

subsection \<open>Checksum stage\<close>

text \<open>
  C2.  For two entries with equal size fields, if \<^verbatim>\<open>get_entry_checksum\<close> fails on
  either of them (it returns a non-zero code, which it does exactly when the entry is or
  becomes \<open>INVALID\<close>), then \<^verbatim>\<open>compare_entries\<close> returns \<open>-1\<close>: not equal.
\<close>

theorem compare_entries_checksum_failure:
  assumes a: "entries s first = Some a" and b: "entries s second = Some b"
    and size: "e_size a = e_size b"
    and g1: "get_entry_checksum H first s = Some (r1, t1)"
    and g2: "get_entry_checksum H second s = Some (r2, t2)"
    and fail: "r1 \<noteq> 0 \<or> r2 \<noteq> 0"
  shows "\<exists>s'. compare_entries H first second s = Some (- 1, s')"
proof -
  obtain a' where sa: "checksum_step H (strings s) (files s) a = Some (r1, a')"
    using get_entry_checksum_result [OF a g1] by blast
  obtain b' where sb: "checksum_step H (strings s) (files s) b = Some (r2, b')"
    using get_entry_checksum_result [OF b g2] by blast
  from compare_entry_checksums_verdict [OF a b sa sb] fail
  obtain s1 where "compare_entry_checksums H first second s = Some (- 1, s1)"
    by auto
  then show ?thesis using a b size by (simp add: compare_entries_def)
qed

theorem compare_entries_checksum_failure_witness:
  "entries unreadable_state 1 = Some entry_a \<and> entries unreadable_state 3 = Some entry_b \<and>
   e_size entry_a = e_size entry_b \<and>
   map_option fst (get_entry_checksum sum_sha1 1 unreadable_state) = Some (- 1) \<and>
   (\<exists>s'. compare_entries sum_sha1 1 3 unreadable_state = Some (- 1, s'))"
proof -
  have a: "entries unreadable_state 1 = Some entry_a"
    and b: "entries unreadable_state 3 = Some entry_b"
    by (simp_all add: unreadable_state_def example_state_def)
  have size: "e_size entry_a = e_size entry_b"
    by (simp add: entry_a_def entry_b_def)
  obtain t1 where g1: "get_entry_checksum sum_sha1 1 unreadable_state = Some (- 1, t1)"
    by (simp add: get_entry_checksum_def unreadable_state_def example_state_def entry_a_def
        fopen_def warning_def Let_def)
  obtain r2 t2 where g2: "get_entry_checksum sum_sha1 3 unreadable_state = Some (r2, t2)"
    using get_entry_checksum_returns [OF b, of "''b''" sum_sha1]
    by (auto simp: unreadable_state_def example_state_def entry_b_def)
  from compare_entries_checksum_failure [OF a b size g1 g2] a b size g1
  show ?thesis by simp
qed

text \<open>
  C3.  Take two entries with equal size fields, each fresh or carrying the digest of its
  file, whose files are both readable without error and have the same digest.  Then
  \<^verbatim>\<open>compare_entries\<close> returns \<open>-1\<close> exactly when \<^verbatim>\<open>thorough_flag\<close> is set and the
  contents differ, and \<open>0\<close> otherwise: with the flag clear a digest match is reported
  equal even if the contents differ, with the flag set the byte-by-byte stage decides.
  That stage, \<^verbatim>\<open>compare_entry_contents\<close>, returns \<open>-1\<close> when the two streams differ
  in a byte or in length, and \<open>0\<close> when both deliver the same bytes and end together.
\<close>

theorem compare_entries_collision:
  assumes a: "entries s first = Some a" and b: "entries s second = Some b"
    and size: "e_size a = e_size b"
    and pa: "strings s (path a) = Some pa" and pb: "strings s (path b) = Some pb"
    and fa: "files s pa = Some fa" and fb: "files s pb = Some fb"
    and ra: "\<not> fails fa" and rb: "\<not> fails fb"
    and sta: "status a = UNTOUCHED \<or>
              (status a = CHECKSUMMED \<and> file_checksum H fa = Some (checksum a))"
    and stb: "status b = UNTOUCHED \<or>
              (status b = CHECKSUMMED \<and> file_checksum H fb = Some (checksum b))"
    and collide: "file_checksum H fa = file_checksum H fb"
  shows "(\<exists>s'. compare_entries H first second s =
            Some (if thorough_flag s \<noteq> 0 \<and> bytes fa \<noteq> bytes fb then - 1 else 0, s')) \<and>
         (\<exists>s'. compare_entry_contents first second s =
            Some (if bytes fa = bytes fb then 0 else - 1, s'))"
proof
  obtain d where da: "file_checksum H fa = Some d"
    using file_checksum_readable [OF ra] by blast
  with collide have db: "file_checksum H fb = Some d" by simp
  obtain a' where sa: "checksum_step H (strings s) (files s) a = Some (0, a')"
    and ca: "checksum a' = d"
    using sta pa fa da by (auto simp: checksum_step_def)
  obtain b' where sb: "checksum_step H (strings s) (files s) b = Some (0, b')"
    and cb: "checksum b' = d"
    using stb pb fb db by (auto simp: checksum_step_def)
  from compare_entries_verdict [OF a b pa pb sa sb] size ca cb fa fb
  show "\<exists>s'. compare_entries H first second s =
          Some (if thorough_flag s \<noteq> 0 \<and> bytes fa \<noteq> bytes fb then - 1 else 0, s')"
    by (auto simp: checksum_loop_refl contents_verdict_def)
next
  from compare_entry_contents_verdict [OF a b pa pb] fa fb
  show "\<exists>s'. compare_entry_contents first second s =
          Some (if bytes fa = bytes fb then 0 else - 1, s')"
    by (auto simp: contents_verdict_def)
qed

theorem compare_entries_collision_witness:
  "file_checksum sum_sha1 file_a = file_checksum sum_sha1 file_b \<and>
   bytes file_a \<noteq> bytes file_b \<and>
   (\<exists>s'. compare_entries sum_sha1 1 3 example_state = Some (0, s')) \<and>
   (\<exists>s'. compare_entries sum_sha1 1 3 (example_state\<lparr>thorough_flag := 1\<rparr>) = Some (- 1, s')) \<and>
   (\<exists>s'. compare_entry_contents 1 3 example_state = Some (- 1, s')) \<and>
   (\<exists>s'. compare_entries sum_sha1 1 3 (twin_state\<lparr>thorough_flag := 1\<rparr>) = Some (0, s')) \<and>
   (\<exists>s'. compare_entry_contents 1 3 twin_state = Some (0, s'))"
proof -
  have collide: "file_checksum sum_sha1 file_a = file_checksum sum_sha1 file_b"
    by (simp add: file_checksum_short file_a_def file_b_def sum_sha1_def BUFFER_SIZE_def)
  have differ: "bytes file_a \<noteq> bytes file_b"
    by (simp add: file_a_def file_b_def)
  have readable: "\<not> fails file_a" "\<not> fails file_b"
    by (simp_all add: file_a_def file_b_def)
  have fresh: "status entry_a = UNTOUCHED" "status entry_b = UNTOUCHED"
    and size: "e_size entry_a = e_size entry_b"
    by (simp_all add: entry_a_def entry_b_def)
  have diff: "(\<exists>s'. compare_entries sum_sha1 1 3 (example_state\<lparr>thorough_flag := t\<rparr>) =
          Some (if t \<noteq> 0 then - 1 else 0, s')) \<and>
        (\<exists>s'. compare_entry_contents 1 3 (example_state\<lparr>thorough_flag := t\<rparr>) =
          Some (- 1, s'))" for t
    using compare_entries_collision [of "example_state\<lparr>thorough_flag := t\<rparr>" 1 entry_a
        3 entry_b "''a''" "''b''" file_a file_b sum_sha1] collide differ readable fresh size
    by (simp add: example_state_def entry_a_def entry_b_def)
  have twin: "(\<exists>s'. compare_entries sum_sha1 1 3 (twin_state\<lparr>thorough_flag := t\<rparr>) =
          Some (0, s')) \<and>
        (\<exists>s'. compare_entry_contents 1 3 (twin_state\<lparr>thorough_flag := t\<rparr>) = Some (0, s'))" for t
    using compare_entries_collision [of "twin_state\<lparr>thorough_flag := t\<rparr>" 1 entry_a
        3 entry_b "''a''" "''b''" file_a file_a sum_sha1] readable fresh size
    by (simp add: twin_state_def example_state_def entry_a_def entry_b_def)
  have same: "example_state\<lparr>thorough_flag := 0\<rparr> = example_state"
    "twin_state\<lparr>thorough_flag := 0\<rparr> = twin_state"
    by (simp_all add: twin_state_def example_state_def)
  from diff [of 0] diff [of 1] twin [of 1] twin [of 0] collide differ show ?thesis
    by (simp add: same)
qed

subsection \<open>Computing a checksum\<close>

text \<open>
  C4.  On an entry whose status is \<open>CHECKSUMMED\<close>, \<^verbatim>\<open>get_entry_checksum\<close> returns
  \<open>0\<close> and the state it was given: no stream is opened and the stored digest stays.
  On a fresh entry the first call opens exactly one stream, and a second call returns
  the same code and changes nothing.
\<close>

theorem get_entry_checksum_memoized:
  assumes "entries s x = Some e"
  shows "(status e = CHECKSUMMED \<longrightarrow> get_entry_checksum H x s = Some (0, s)) \<and>
         (status e = UNTOUCHED \<longrightarrow> strings s (path e) \<noteq> None \<longrightarrow>
            (\<exists>r s1. get_entry_checksum H x s = Some (r, s1) \<and>
               opens (trace s1) = opens (trace s) + 1 \<and>
               get_entry_checksum H x s1 = Some (r, s1)))"
proof (intro conjI impI)
  assume "status e = CHECKSUMMED"
  then show "get_entry_checksum H x s = Some (0, s)"
    using assms by (simp add: get_entry_checksum_def)
next
  assume u: "status e = UNTOUCHED" and "strings s (path e) \<noteq> None"
  then obtain p where p: "strings s (path e) = Some p" by auto
  show "\<exists>r s1. get_entry_checksum H x s = Some (r, s1) \<and>
          opens (trace s1) = opens (trace s) + 1 \<and>
          get_entry_checksum H x s1 = Some (r, s1)"
  proof (cases "files s p")
    case None
    then show ?thesis using assms u p
      by (simp add: get_entry_checksum_def fopen_def warning_def opens_def Let_def)
  next
    case (Some f)
    then show ?thesis using assms u p
      by (cases "read_loop H (SHA1Init H) (open_stream f)")
        (simp_all add: get_entry_checksum_def fopen_def fclose_def warning_def opens_def
          Let_def)
  qed
qed

theorem get_entry_checksum_memoized_witness:
  "entries example_state 5 = Some entry_c \<and> status entry_c = UNTOUCHED \<and>
   strings example_state (path entry_c) \<noteq> None \<and>
   (\<exists>r s1. get_entry_checksum sum_sha1 5 example_state = Some (r, s1) \<and>
      opens (trace s1) = opens (trace example_state) + 1 \<and>
      get_entry_checksum sum_sha1 5 s1 = Some (r, s1)) \<and>
   entries damaged_state 1 =
     Some (entry_a\<lparr>status := CHECKSUMMED, checksum := 3 # replicate 19 0\<rparr>) \<and>
   get_entry_checksum sum_sha1 1 damaged_state = Some (0, damaged_state)"
proof -
  have c: "entries example_state 5 = Some entry_c"
    by (simp add: example_state_def)
  have fresh: "status entry_c = UNTOUCHED"
    by (simp add: entry_c_def)
  have str: "strings example_state (path entry_c) \<noteq> None"
    by (simp add: example_state_def entry_c_def)
  have a: "entries damaged_state 1 =
      Some (entry_a\<lparr>status := CHECKSUMMED, checksum := 3 # replicate 19 0\<rparr>)"
    by (simp add: damaged_state_def)
  from get_entry_checksum_memoized [OF c, of sum_sha1]
    get_entry_checksum_memoized [OF a, of sum_sha1] c fresh str a
  show ?thesis by simp
qed

text \<open>
  C5.  On an entry whose status is \<open>INVALID\<close>, \<^verbatim>\<open>get_entry_checksum\<close> returns
  \<open>-1\<close> and the state it was given.  On a fresh entry whose file cannot be opened, or
  whose file yields a read error, it returns \<open>-1\<close> and the entry differs from the old
  one in its status alone, now \<open>INVALID\<close>: the checksum field is the old one, which is
  all-zero, and stays so, in every state where the entries that are not \<open>CHECKSUMMED\<close>
  have the all-zero checksum (every state reached by calls from the empty state is one).
  A further call fails again without touching anything.
\<close>

theorem get_entry_checksum_failure:
  assumes "entries s x = Some e"
  shows "(status e = INVALID \<longrightarrow> get_entry_checksum H x s = Some (- 1, s)) \<and>
         (status e = UNTOUCHED \<longrightarrow> strings s (path e) = Some p \<longrightarrow>
          (files s p = None \<or> (\<exists>f. files s p = Some f \<and> fails f)) \<longrightarrow>
            (\<exists>s'. get_entry_checksum H x s = Some (- 1, s') \<and>
               entries s' = (entries s)(x \<mapsto> e\<lparr>status := INVALID\<rparr>) \<and>
               (zero_until_checksummed s \<longrightarrow>
                  checksum e = replicate SHA1_HASH_SIZE 0 \<and> zero_until_checksummed s') \<and>
               get_entry_checksum H x s' = Some (- 1, s')))"
proof (intro conjI impI)
  assume "status e = INVALID"
  then show "get_entry_checksum H x s = Some (- 1, s)"
    using assms by (simp add: get_entry_checksum_def)
next
  assume u: "status e = UNTOUCHED" and p: "strings s (path e) = Some p"
    and bad: "files s p = None \<or> (\<exists>f. files s p = Some f \<and> fails f)"
  have "\<exists>s'. get_entry_checksum H x s = Some (- 1, s') \<and>
          entries s' = (entries s)(x \<mapsto> e\<lparr>status := INVALID\<rparr>) \<and>
          get_entry_checksum H x s' = Some (- 1, s')"
  proof (cases "files s p")
    case None
    then show ?thesis using assms u p
      by (simp add: get_entry_checksum_def fopen_def warning_def Let_def)
  next
    case (Some f)
    with bad have "fails f" by simp
    then have "read_loop H (SHA1Init H) (open_stream f) = None"
      by (simp add: read_loop_bad open_stream_def)
    then show ?thesis using assms u p Some
      by (simp add: get_entry_checksum_def fopen_def fclose_def warning_def Let_def)
  qed
  then obtain s' where g: "get_entry_checksum H x s = Some (- 1, s')"
    and es: "entries s' = (entries s)(x \<mapsto> e\<lparr>status := INVALID\<rparr>)"
    and again: "get_entry_checksum H x s' = Some (- 1, s')"
    by blast
  have "checksum e = replicate SHA1_HASH_SIZE 0 \<and> zero_until_checksummed s'"
    if z: "zero_until_checksummed s"
  proof
    from z assms u show "checksum e = replicate SHA1_HASH_SIZE 0"
      unfolding zero_until_checksummed_def by fastforce
    from get_entry_checksum_evolves [OF g] z show "zero_until_checksummed s'"
      by (rule evolves_zero)
  qed
  with g es again
  show "\<exists>s'. get_entry_checksum H x s = Some (- 1, s') \<and>
          entries s' = (entries s)(x \<mapsto> e\<lparr>status := INVALID\<rparr>) \<and>
          (zero_until_checksummed s \<longrightarrow>
             checksum e = replicate SHA1_HASH_SIZE 0 \<and> zero_until_checksummed s') \<and>
          get_entry_checksum H x s' = Some (- 1, s')"
    by blast
qed

theorem get_entry_checksum_failure_witness:
  "entries unreadable_state 5 = Some entry_c \<and> status entry_c = UNTOUCHED \<and>
   strings unreadable_state (path entry_c) = Some ''c'' \<and>
   files unreadable_state ''c'' = Some \<lparr>bytes = [7], fails = True\<rparr> \<and>
   zero_until_checksummed unreadable_state \<and>
   (\<exists>s'. get_entry_checksum sum_sha1 5 unreadable_state = Some (- 1, s') \<and>
      entries s' = (entries unreadable_state)(5 \<mapsto> entry_c\<lparr>status := INVALID\<rparr>) \<and>
      checksum entry_c = replicate SHA1_HASH_SIZE 0 \<and> zero_until_checksummed s' \<and>
      get_entry_checksum sum_sha1 5 s' = Some (- 1, s')) \<and>
   entries unreadable_state 1 = Some entry_a \<and> status entry_a = UNTOUCHED \<and>
   strings unreadable_state (path entry_a) = Some ''a'' \<and>
   files unreadable_state ''a'' = None \<and>
   (\<exists>s'. get_entry_checksum sum_sha1 1 unreadable_state = Some (- 1, s') \<and>
      entries s' = (entries unreadable_state)(1 \<mapsto> entry_a\<lparr>status := INVALID\<rparr>) \<and>
      checksum entry_a = replicate SHA1_HASH_SIZE 0 \<and> zero_until_checksummed s' \<and>
      get_entry_checksum sum_sha1 1 s' = Some (- 1, s')) \<and>
   entries stale_state 1 = Some (entry_a\<lparr>status := INVALID\<rparr>) \<and>
   get_entry_checksum sum_sha1 1 stale_state = Some (- 1, stale_state)"
proof -
  have c: "entries unreadable_state 5 = Some entry_c"
    and a: "entries unreadable_state 1 = Some entry_a"
    by (simp_all add: unreadable_state_def example_state_def)
  have fresh: "status entry_c = UNTOUCHED" "status entry_a = UNTOUCHED"
    by (simp_all add: entry_c_def entry_a_def)
  have str: "strings unreadable_state (path entry_c) = Some ''c''"
    "strings unreadable_state (path entry_a) = Some ''a''"
    by (simp_all add: unreadable_state_def example_state_def entry_c_def entry_a_def)
  have f: "files unreadable_state ''c'' = Some \<lparr>bytes = [7], fails = True\<rparr>"
    "files unreadable_state ''a'' = None"
    by (simp_all add: unreadable_state_def)
  have i: "entries stale_state 1 = Some (entry_a\<lparr>status := INVALID\<rparr>)"
    by (simp add: stale_state_def)
  note z = zero_unreadable_state
  from get_entry_checksum_failure [OF c, of sum_sha1 "''c''"]
    get_entry_checksum_failure [OF a, of sum_sha1 "''a''"]
    get_entry_checksum_failure [OF i, of sum_sha1 "''a''"] c a fresh str f i z
  show ?thesis by simp
qed

subsection \<open>The status field\<close>

text \<open>
  C6.  Starting from a state that satisfies the allocator's invariant, \<^verbatim>\<open>make_entry\<close>
  yields an entry whose status is \<open>UNTOUCHED\<close>, and across any sequence of calls of
  \<^verbatim>\<open>make_entry\<close>, \<^verbatim>\<open>copy_entry\<close>, \<^verbatim>\<open>get_entry_checksum\<close>,
  \<^verbatim>\<open>compare_entry_checksums\<close>, \<^verbatim>\<open>compare_entry_contents\<close> and
  \<^verbatim>\<open>compare_entries\<close>, interleaved with arbitrary changes of the file system and the
  flags, every entry stays allocated and its status either stays what it was or was
  \<open>UNTOUCHED\<close> to begin with: \<open>CHECKSUMMED\<close> and \<open>INVALID\<close> are never left, and
  \<open>UNTOUCHED\<close> is never entered again.
\<close>

theorem status_monotone:
  assumes "heap_ok s"
  shows "(\<exists>e. entries (snd (make_entry p sz s)) (fst (make_entry p sz s)) = Some e \<and>
            status e = UNTOUCHED) \<and>
         (\<forall>cs s' x e. run_calls H cs s = Some s' \<longrightarrow> entries s x = Some e \<longrightarrow>
            (\<exists>e'. entries s' x = Some e' \<and> (status e' = status e \<or> status e = UNTOUCHED)))"
proof (intro conjI allI impI)
  show "\<exists>e. entries (snd (make_entry p sz s)) (fst (make_entry p sz s)) = Some e \<and>
          status e = UNTOUCHED"
    by (simp add: make_entry_def malloc_def strdup_def)
next
  fix cs s' x e
  assume "run_calls H cs s = Some s'" and "entries s x = Some e"
  with run_calls_inv [OF assms, of H cs s']
  show "\<exists>e'. entries s' x = Some e' \<and> (status e' = status e \<or> status e = UNTOUCHED)"
    by (simp add: status_step_def)
qed

theorem status_monotone_witness:
  "heap_ok damaged_state \<and>
   (\<exists>e. entries (snd (make_entry ''z'' 0 damaged_state))
          (fst (make_entry ''z'' 0 damaged_state)) = Some e \<and>
        status e = UNTOUCHED) \<and>
   (\<exists>s' e'. run_calls sum_sha1 [Get_entry_checksum 1, Compare_entry_contents 1 3]
        damaged_state = Some s' \<and>
      entries s' 1 = Some e' \<and> status e' = CHECKSUMMED)"
proof -
  have ok: "heap_ok damaged_state"
    by (simp add: heap_ok_iff damaged_state_def)
  have a: "entries damaged_state 1 =
      Some (entry_a\<lparr>status := CHECKSUMMED, checksum := 3 # replicate 19 0\<rparr>)"
    by (simp add: damaged_state_def)
  obtain s' where run: "run_calls sum_sha1 [Get_entry_checksum 1, Compare_entry_contents 1 3]
      damaged_state = Some s'"
    by (simp add: get_entry_checksum_def compare_entry_contents_def fopen_def fclose_def
        damaged_state_def entry_a_def entry_b_def)
  from status_monotone [OF ok, of "''z''" 0 sum_sha1] run a ok
  show ?thesis by fastforce
qed

subsection \<open>Byte-by-byte stage\<close>

lemma compare_entry_contents_unopened:
  assumes "entries s a = Some ea" and "entries s b = Some eb"
    and "strings s (path ea) = Some pa" and "strings s (path eb) = Some pb"
    and "files s pa = None \<or> files s pb = None"
  shows "\<exists>s'. compare_entry_contents a b s = Some (- 1, s')"
  using compare_entry_contents_verdict [OF assms(1-4)] assms(5)
  by (auto simp: contents_verdict_def split: option.splits)

text \<open>
  C7.  \<^verbatim>\<open>compare_entry_contents\<close> returns \<open>-1\<close> when a file cannot be opened, but it
  never tests \<^verbatim>\<open>ferror\<close>: the \<^verbatim>\<open>EOF\<close> that \<^verbatim>\<open>fgetc\<close> returns on a read error
  is taken for the end of the file.  In \<open>damaged_state\<close> both streams deliver one equal
  byte and then fail; the function returns \<open>0\<close>, and so does \<^verbatim>\<open>compare_entries\<close> with
  the byte-by-byte stage enabled, although neither file could be read to its end.
\<close>

theorem compare_entry_contents_read_error:
  "map_option fst (compare_entry_contents 1 3 damaged_state) = Some 0 \<and>
   map_option fst (compare_entries sum_sha1 1 3 damaged_state) = Some 0"
  by (simp add: compare_entries_def compare_entry_checksums_def get_entry_checksum_def
      compare_entry_contents_def fopen_def fclose_def open_stream_def contents_loop_eq
      checksum_loop_refl damaged_state_def entry_a_def entry_b_def)

subsection \<open>Copies\<close>

text \<open>
  C8.  An entry does not always compare equal to its own copy: the result is \<open>-1\<close> for
  entry \<open>1\<close> of \<open>unreadable_state\<close>, whose file is missing, and for entry \<open>1\<close> of
  \<open>stale_state\<close>, whose status is \<open>INVALID\<close> although its file is readable.
\<close>

theorem compare_with_clone_counterexample:
  "map_option fst (compare_with_clone sum_sha1 1 unreadable_state) = Some (- 1) \<and>
   map_option fst (compare_with_clone sum_sha1 1 stale_state) = Some (- 1)"
  by (simp add: compare_with_clone_def copy_entry_def malloc_def strdup_def
      compare_entries_def compare_entry_checksums_def get_entry_checksum_def
      fopen_def warning_def Let_def unreadable_state_def stale_state_def example_state_def
      entry_a_def)

text \<open>
  C8, amended.  For every entry whose status is not \<open>INVALID\<close> and whose file can be
  opened and read without error, comparing the entry with a copy of itself returns \<open>0\<close>,
  whatever the value of \<^verbatim>\<open>thorough_flag\<close>.
\<close>

theorem compare_with_clone_equal:
  assumes ok: "heap_ok s" and e: "entries s x = Some e"
    and p: "strings s (path e) = Some p"
    and st: "status e \<noteq> INVALID"
    and f: "files s p = Some f" and r: "\<not> fails f"
  shows "\<exists>s'. compare_with_clone H x s = Some (0, s')"
proof -
  let ?c = "\<lparr>e_next = None, path = Suc (brk s), e_size = e_size e, status = status e,
             checksum = checksum e\<rparr>"
  obtain s' where cp: "copy_entry x s = Some (brk s, s')"
    and es: "entries s' = (entries s)(brk s \<mapsto> ?c)"
    and ss: "strings s' = (strings s)(Suc (brk s) \<mapsto> p)"
    and fs: "files s' = files s"
    using copy_entry_effect [OF ok e p] by blast
  have ne: "brk s \<noteq> x" and np: "Suc (brk s) \<noteq> path e"
    using heap_ok_fresh(4) [OF ok e] heap_ok_fresh(5) [OF ok p] by auto
  have c: "entries s' (brk s) = Some ?c" and e': "entries s' x = Some e"
    using es e ne by auto
  have pc: "strings s' (path ?c) = Some p" and pe: "strings s' (path e) = Some p"
    using ss p np by auto
  obtain d where d: "file_checksum H f = Some d"
    using file_checksum_readable [OF r] by blast
  define e1 where "e1 = (if status e = UNTOUCHED
                          then e\<lparr>checksum := d, status := CHECKSUMMED\<rparr> else e)"
  define e2 where "e2 = (if status e = UNTOUCHED
                          then ?c\<lparr>checksum := d, status := CHECKSUMMED\<rparr> else ?c)"
  have s1: "checksum_step H (strings s') (files s') e = Some (0, e1)"
    using st pe f fs d by (simp add: checksum_step_def e1_def)
  have s2: "checksum_step H (strings s') (files s') ?c = Some (0, e2)"
    using st pc f fs d by (simp add: checksum_step_def e2_def)
  have c12: "checksum e1 = checksum e2"
    by (simp add: e1_def e2_def)
  from compare_entries_verdict [OF e' c pe pc s1 s2] c12 f fs
  have "\<exists>t. compare_entries H x (brk s) s' = Some (0, t)"
    by (auto simp: checksum_loop_refl contents_verdict_same)
  then show ?thesis using cp by (simp add: compare_with_clone_def)
qed

theorem compare_with_clone_equal_witness:
  "heap_ok example_state \<and> entries example_state 1 = Some entry_a \<and>
   strings example_state (path entry_a) = Some ''a'' \<and> status entry_a \<noteq> INVALID \<and>
   files example_state ''a'' = Some file_a \<and> \<not> fails file_a \<and>
   (\<exists>s'. compare_with_clone sum_sha1 1 example_state = Some (0, s')) \<and>
   (\<exists>s'. compare_with_clone sum_sha1 1 (example_state\<lparr>thorough_flag := 1\<rparr>) = Some (0, s'))"
proof -
  have ok: "heap_ok (example_state\<lparr>thorough_flag := t\<rparr>)" for t
    by (simp add: heap_ok_iff example_state_def)
  have a: "entries (example_state\<lparr>thorough_flag := t\<rparr>) 1 = Some entry_a" for t
    by (simp add: example_state_def)
  have p: "strings (example_state\<lparr>thorough_flag := t\<rparr>) (path entry_a) = Some ''a''" for t
    by (simp add: example_state_def entry_a_def)
  have st: "status entry_a \<noteq> INVALID"
    by (simp add: entry_a_def)
  have f: "files (example_state\<lparr>thorough_flag := t\<rparr>) ''a'' = Some file_a" for t
    by (simp add: example_state_def)
  have r: "\<not> fails file_a"
    by (simp add: file_a_def)
  have same: "example_state\<lparr>thorough_flag := 0\<rparr> = example_state"
    by (simp add: example_state_def)
  from compare_with_clone_equal [OF ok [of 0] a [of 0] p [of 0] st f [of 0] r, of sum_sha1]
    compare_with_clone_equal [OF ok [of 1] a [of 1] p [of 1] st f [of 1] r, of sum_sha1]
    ok [of 0] a [of 0] p [of 0] f [of 0] st r
  show ?thesis by (simp add: same)
qed

text \<open>
  C9.  In a state that satisfies the allocator's invariant, \<^verbatim>\<open>copy_entry\<close> on an
  allocated entry returns a new address, different from the original's; the copy has
  the original's size, status and checksum and a path string of its own, stored at a
  different address with the same characters; the original is unchanged.  Running
  \<^verbatim>\<open>get_entry_checksum\<close> on the copy leaves the original entry and its path string as
  they were, and running it on the original leaves the copy and its path string as they
  were.
\<close>

theorem copy_entry_independent:
  assumes ok: "heap_ok s" and e: "entries s entry = Some e"
    and p: "strings s (path e) = Some str"
  shows "\<exists>copy s' c. copy_entry entry s = Some (copy, s') \<and>
           copy \<noteq> entry \<and> entries s' copy = Some c \<and> entries s' entry = Some e \<and>
           e_size c = e_size e \<and> status c = status e \<and> checksum c = checksum e \<and>
           path c \<noteq> path e \<and> strings s' (path c) = Some str \<and>
           strings s' (path e) = Some str \<and>
           (\<exists>r t. get_entry_checksum H copy s' = Some (r, t) \<and>
              entries t entry = Some e \<and> strings t (path e) = Some str) \<and>
           (\<exists>r t. get_entry_checksum H entry s' = Some (r, t) \<and>
              entries t copy = Some c \<and> strings t (path c) = Some str)"
proof -
  let ?c = "\<lparr>e_next = None, path = Suc (brk s), e_size = e_size e, status = status e,
             checksum = checksum e\<rparr>"
  obtain s' where cp: "copy_entry entry s = Some (brk s, s')"
    and es: "entries s' = (entries s)(brk s \<mapsto> ?c)"
    and ss: "strings s' = (strings s)(Suc (brk s) \<mapsto> str)"
    using copy_entry_effect [OF assms] by blast
  have ne: "brk s \<noteq> entry" and np: "Suc (brk s) \<noteq> path e"
    using heap_ok_fresh(4) [OF ok e] heap_ok_fresh(5) [OF ok p] by auto
  have c: "entries s' (brk s) = Some ?c" and e': "entries s' entry = Some e"
    using es e ne by auto
  have pc: "strings s' (path ?c) = Some str" and pe: "strings s' (path e) = Some str"
    using ss p np by auto
  obtain r1 t1 where g1: "get_entry_checksum H (brk s) s' = Some (r1, t1)"
    using get_entry_checksum_returns [OF c pc] by blast
  obtain r2 t2 where g2: "get_entry_checksum H entry s' = Some (r2, t2)"
    using get_entry_checksum_returns [OF e' pe] by blast
  have f1: "entries t1 entry = Some e \<and> strings t1 (path e) = Some str"
    using get_entry_checksum_result [OF c g1] e' pe ne by (auto simp: same_world_def)
  have f2: "entries t2 (brk s) = Some ?c \<and> strings t2 (path ?c) = Some str"
    using get_entry_checksum_result [OF e' g2] c pc ne by (auto simp: same_world_def)
  show ?thesis
    using cp ne c e' np pc pe g1 g2 f1 f2
    by (intro exI [of _ "brk s"] exI [of _ s'] exI [of _ ?c]) auto
qed

theorem copy_entry_independent_witness:
  "heap_ok example_state \<and> entries example_state 1 = Some entry_a \<and>
   strings example_state (path entry_a) = Some ''a'' \<and>
   (\<exists>copy s' c. copy_entry 1 example_state = Some (copy, s') \<and>
      copy \<noteq> 1 \<and> entries s' copy = Some c \<and> entries s' 1 = Some entry_a \<and>
      e_size c = e_size entry_a \<and> status c = status entry_a \<and>
      checksum c = checksum entry_a \<and>
      path c \<noteq> path entry_a \<and> strings s' (path c) = Some ''a'' \<and>
      strings s' (path entry_a) = Some ''a'' \<and>
      (\<exists>r t. get_entry_checksum sum_sha1 copy s' = Some (r, t) \<and>
         entries t 1 = Some entry_a \<and> strings t (path entry_a) = Some ''a'') \<and>
      (\<exists>r t. get_entry_checksum sum_sha1 1 s' = Some (r, t) \<and>
         entries t copy = Some c \<and> strings t (path c) = Some ''a''))"
proof -
  have ok: "heap_ok example_state"
    by (simp add: heap_ok_iff example_state_def)
  have a: "entries example_state 1 = Some entry_a"
    by (simp add: example_state_def)
  have p: "strings example_state (path entry_a) = Some ''a''"
    by (simp add: example_state_def entry_a_def)
  from copy_entry_independent [OF ok a p, of sum_sha1] ok a p
  show ?thesis by simp
qed

subsection \<open>Symmetry of the verdict\<close>

text \<open>
  C10.  For two allocated entries with allocated path strings, \<^verbatim>\<open>compare_entries\<close>
  called on \<open>(a, b)\<close> and on \<open>(b, a)\<close> from the same state returns the same
  result code, whatever the flags; the states the two calls leave behind may differ.
\<close>

theorem compare_entries_symmetric:
  assumes "entries s a = Some ea" and "entries s b = Some eb"
    and "strings s (path ea) = Some pa" and "strings s (path eb) = Some pb"
  shows "\<exists>r s1 s2. compare_entries H a b s = Some (r, s1) \<and>
           compare_entries H b a s = Some (r, s2)"
proof -
  obtain ra ea' where sa: "checksum_step H (strings s) (files s) ea = Some (ra, ea')"
    using checksum_step_total [of "strings s" ea pa H "files s"] assms(3) by blast
  obtain rb eb' where sb: "checksum_step H (strings s) (files s) eb = Some (rb, eb')"
    using checksum_step_total [of "strings s" eb pb H "files s"] assms(4) by blast
  from compare_entries_verdict [OF assms(1,2,3,4) sa sb]
    compare_entries_verdict [OF assms(2,1,4,3) sb sa]
  show ?thesis
    by (auto simp: checksum_loop_sym [of 0 "checksum eb'"]
        contents_verdict_sym [of "files s pb"] eq_commute [of "e_size eb"]
        disj_commute [of "rb \<noteq> 0"])
qed

theorem compare_entries_symmetric_witness:
  "entries example_state 1 = Some entry_a \<and> entries example_state 3 = Some entry_b \<and>
   strings example_state (path entry_a) = Some ''a'' \<and>
   strings example_state (path entry_b) = Some ''b'' \<and>
   (\<exists>r s1 s2. compare_entries sum_sha1 1 3 example_state = Some (r, s1) \<and>
      compare_entries sum_sha1 3 1 example_state = Some (r, s2)) \<and>
   (\<exists>r s1 s2. compare_entries sum_sha1 1 3 (example_state\<lparr>thorough_flag := 1\<rparr>) = Some (r, s1) \<and>
      compare_entries sum_sha1 3 1 (example_state\<lparr>thorough_flag := 1\<rparr>) = Some (r, s2))"
proof -
  have a: "entries (example_state\<lparr>thorough_flag := t\<rparr>) 1 = Some entry_a"
    and b: "entries (example_state\<lparr>thorough_flag := t\<rparr>) 3 = Some entry_b" for t
    by (simp_all add: example_state_def)
  have pa: "strings (example_state\<lparr>thorough_flag := t\<rparr>) (path entry_a) = Some ''a''"
    and pb: "strings (example_state\<lparr>thorough_flag := t\<rparr>) (path entry_b) = Some ''b''" for t
    by (simp_all add: example_state_def entry_a_def entry_b_def)
  have same: "example_state\<lparr>thorough_flag := 0\<rparr> = example_state"
    by (simp add: example_state_def)
  from compare_entries_symmetric [OF a [of 0] b [of 0] pa [of 0] pb [of 0], of sum_sha1]
    compare_entries_symmetric [OF a [of 1] b [of 1] pa [of 1] pb [of 1], of sum_sha1]
    a [of 0] b [of 0] pa [of 0] pb [of 0]
  show ?thesis by (simp add: same)
qed

end
